theory Spec2Isabelle
  imports Main
begin

section \<open>Edit distance calculator: data model\<close>

text \<open>
  The operation tags of \<^verbatim>\<open>edit_distance.py\<close> are one-character Python strings, and the
  freshly allocated action matrix holds the empty string, so a tag is modelled as a
  \<open>string\<close> and not as a four-element datatype: an unknown tag is a value the walk can meet.
\<close>

definition REPLACE :: string where "REPLACE = ''R''"
definition INSERT :: string where "INSERT = ''I''"
definition DELETE :: string where "DELETE = ''D''"
definition MATCH :: string where "MATCH = ''M''"

text \<open>The dictionary \<^verbatim>\<open>COST_MAP\<close>.\<close>

definition COST_MAP :: "string \<rightharpoonup> int" where
  "COST_MAP = [REPLACE \<mapsto> 4, INSERT \<mapsto> 3, DELETE \<mapsto> 2, MATCH \<mapsto> 0]"

text \<open>The exceptions the three functions can raise.\<close>

datatype error = IndexError | KeyError | RuntimeError string

section \<open>get\_matrix\<close>

text \<open>
  \<^verbatim>\<open>m[i][j] = v\<close> on a list of rows. The rows of both matrices are built by
  \<^verbatim>\<open>list(map(list, ...))\<close> and are therefore distinct objects, so the assignment
  changes one cell only. Every index \<^verbatim>\<open>get_matrix\<close> uses is a loop index below the
  matrix dimensions (lemma \<open>dims_get_matrices\<close>), so no \<^verbatim>\<open>IndexError\<close> branch is modelled here.
\<close>

definition set_cell :: "'a list list \<Rightarrow> nat \<Rightarrow> nat \<Rightarrow> 'a \<Rightarrow> 'a list list" where
  "set_cell m i j v = m[i := (m ! i)[j := v]]"

text \<open>
  The body of the inner loop (lines 50 to 62) at cell \<open>(i, j)\<close>. The keys looked up in
  \<^verbatim>\<open>COST_MAP\<close> are three of its four constants, so the lookup cannot raise.
\<close>

definition fill_cell ::
  "nat \<Rightarrow> 'a \<Rightarrow> nat \<Rightarrow> 'a \<Rightarrow> int list list \<times> string list list \<Rightarrow> int list list \<times> string list list" where
  "fill_cell i char_origin j char_final s =
     (case s of (matrix, action_matrix) \<Rightarrow>
        let replace_action = (if char_origin = char_final then MATCH else REPLACE);
            insert = matrix ! i ! (j - 1) + the (COST_MAP INSERT);
            delete = matrix ! (i - 1) ! j + the (COST_MAP DELETE);
            replace = matrix ! (i - 1) ! (j - 1) + the (COST_MAP replace_action);
            optimal = min insert (min delete replace);
            matrix = set_cell matrix i j optimal
        in if optimal = insert then (matrix, set_cell action_matrix i j INSERT)
           else if optimal = delete then (matrix, set_cell action_matrix i j DELETE)
           else if optimal = replace then (matrix, set_cell action_matrix i j replace_action)
           else (matrix, action_matrix))"

text \<open>
  The two border loops (lines 40 to 46) and the nested loop over
  \<^verbatim>\<open>enumerate(original, 1)\<close> and \<^verbatim>\<open>enumerate(final, 1)\<close>. The function keeps the
  numeric matrix beside the action matrix; \<^verbatim>\<open>get_matrix\<close> returns the second.
\<close>

definition get_matrices :: "'a list \<Rightarrow> 'a list \<Rightarrow> int list list \<times> string list list" where
  "get_matrices original final =
     (let size_origin = length original + 1;
          size_final = length final + 1;
          matrix = replicate size_origin (replicate size_final (0::int));
          action_matrix = replicate size_origin (replicate size_final '''');
          s = fold (\<lambda>i (matrix, action_matrix).
                 (set_cell matrix i 0 (int i), set_cell action_matrix i 0 DELETE))
               [0..<size_origin] (matrix, action_matrix);
          s = fold (\<lambda>j (matrix, action_matrix).
                 (set_cell matrix 0 j (int j), set_cell action_matrix 0 j INSERT))
               [0..<size_final] s
      in fold (\<lambda>(i, char_origin).
                fold (\<lambda>(j, char_final). fill_cell i char_origin j char_final)
                  (enumerate 1 final))
           (enumerate 1 original) s)"

definition get_matrix :: "'a list \<Rightarrow> 'a list \<Rightarrow> string list list" where
  "get_matrix original final = snd (get_matrices original final)"

section \<open>get\_prescription\<close>

text \<open>Python's \<^verbatim>\<open>xs[i]\<close>: a negative index counts from the end.\<close>

definition py_get :: "'a list \<Rightarrow> int \<Rightarrow> error + 'a" where
  "py_get xs i =
     (let n = int (length xs); k = (if i < 0 then n + i else i)
      in if 0 \<le> k \<and> k < n then Inr (xs ! nat k) else Inl IndexError)"

text \<open>
  The \<^verbatim>\<open>while i or j\<close> loop (lines 75 to 86). The indices are Python integers and may
  leave the matrix on an action matrix that \<^verbatim>\<open>get_matrix\<close> did not build. Every iteration
  lowers \<open>i + j\<close>, and an index below the negated length raises \<^verbatim>\<open>IndexError\<close>, so the
  loop ends on every input: the termination proof below makes \<open>traceback\<close> a total function.
\<close>

function traceback :: "string list list \<Rightarrow> int \<Rightarrow> int \<Rightarrow> string list \<Rightarrow> error + string list" where
  "traceback action_matrix i j prescr =
     (if i = 0 \<and> j = 0 then Inr prescr
      else case py_get action_matrix i of
          Inl e \<Rightarrow> Inl e
        | Inr row \<Rightarrow>
            (case py_get row j of
               Inl e \<Rightarrow> Inl e
             | Inr action \<Rightarrow>
                 if action = DELETE then traceback action_matrix (i - 1) j (prescr @ [action])
                 else if action = INSERT then traceback action_matrix i (j - 1) (prescr @ [action])
                 else if action = REPLACE \<or> action = MATCH
                   then traceback action_matrix (i - 1) (j - 1) (prescr @ [action])
                 else Inl (RuntimeError action)))"
  by pat_completeness auto
termination
proof (relation "measure (\<lambda>(m, i, j, p). nat (i + j + int (length m) + int (sum_list (map length m)) + 1))",
    goal_cases)
  case 1
  show ?case by simp
next
  case (2 m i j p row action)
  from 2(2) have "row \<in> set m" "- int (length m) \<le> i"
    by (auto simp: py_get_def Let_def split: if_splits)
  moreover from 2(3) have "- int (length row) \<le> j"
    by (auto simp: py_get_def Let_def split: if_splits)
  moreover have "row \<in> set m \<Longrightarrow> length row \<le> sum_list (map length m)"
    by (simp add: member_le_sum_list)
  ultimately show ?case by simp
next
  case (3 m i j p row action)
  from 3(2) have "row \<in> set m" "- int (length m) \<le> i"
    by (auto simp: py_get_def Let_def split: if_splits)
  moreover from 3(3) have "- int (length row) \<le> j"
    by (auto simp: py_get_def Let_def split: if_splits)
  moreover have "row \<in> set m \<Longrightarrow> length row \<le> sum_list (map length m)"
    by (simp add: member_le_sum_list)
  ultimately show ?case by simp
next
  case (4 m i j p row action)
  from 4(2) have "row \<in> set m" "- int (length m) \<le> i"
    by (auto simp: py_get_def Let_def split: if_splits)
  moreover from 4(3) have "- int (length row) \<le> j"
    by (auto simp: py_get_def Let_def split: if_splits)
  moreover have "row \<in> set m \<Longrightarrow> length row \<le> sum_list (map length m)"
    by (simp add: member_le_sum_list)
  ultimately show ?case by simp
qed

declare traceback.simps [simp del]

definition get_prescription :: "string list list \<Rightarrow> error + string list" where
  "get_prescription action_matrix =
     (case py_get action_matrix 0 of
        Inl e \<Rightarrow> Inl e
      | Inr row0 \<Rightarrow>
          (case traceback action_matrix (int (length action_matrix) - 1) (int (length row0) - 1) [] of
             Inl e \<Rightarrow> Inl e
           | Inr prescr \<Rightarrow> Inr (rev prescr)))"

section \<open>get\_redaction\<close>

text \<open>
  One step of the replay (lines 102 to 113) on the cursor \<open>i\<close> and the contents of the
  working list. The cursor starts at 0 and is only ever incremented, so it is a \<open>nat\<close>.
  \<^verbatim>\<open>result.pop(i)\<close>, \<^verbatim>\<open>final[i]\<close> and \<^verbatim>\<open>result[i] = ...\<close> raise
  \<^verbatim>\<open>IndexError\<close> out of range; \<^verbatim>\<open>result.insert(i, x)\<close> never raises (past the end
  it appends, which \<open>take\<close> and \<open>drop\<close> give as well).
\<close>

definition apply_action :: "'a list \<Rightarrow> string \<Rightarrow> nat \<Rightarrow> 'a list \<Rightarrow> error + (nat \<times> 'a list)" where
  "apply_action final action i result =
     (if action = DELETE then
        (if i < length result then Inr (i, take i result @ drop (Suc i) result)
         else Inl IndexError)
      else if action = INSERT then
        (if i < length final then Inr (Suc i, take i result @ final ! i # drop i result)
         else Inl IndexError)
      else if action = MATCH then Inr (Suc i, result)
      else if action = REPLACE then
        (if i < length final \<and> i < length result then Inr (Suc i, result[i := final ! i])
         else Inl IndexError)
      else Inl (RuntimeError action))"

text \<open>
  The generator yields the tuple \<^verbatim>\<open>(action, i, total, result)\<close>, whose last component is
  the list object itself. Objects live in a heap, a list of list values addressed by
  position; \<^verbatim>\<open>list(original)\<close> allocates a new object at the end of the heap.
\<close>

type_synonym addr = nat
type_synonym 'a heap = "'a list list"

record step =
  step_action :: string
  step_i :: nat
  step_total :: int
  step_result :: addr

text \<open>
  The \<^verbatim>\<open>for\<close> loop of the generator, run to exhaustion: every yielded tuple is paired with
  the heap as it is when the consumer receives the tuple, and the second component is the
  exception that ended the generator, if any. The variable \<open>tot\<close> is the source's
  \<^verbatim>\<open>total\<close>, and \<open>r\<close> is the address of the list the source calls \<^verbatim>\<open>result\<close>.
\<close>

fun redaction_loop ::
  "'a list \<Rightarrow> addr \<Rightarrow> string list \<Rightarrow> int \<Rightarrow> nat \<Rightarrow> 'a heap \<Rightarrow> (step \<times> 'a heap) list \<times> error option" where
  "redaction_loop final r [] tot i h = ([], None)"
| "redaction_loop final r (action # prescription) tot i h =
     (case apply_action final action i (h ! r) of
        Inl e \<Rightarrow> ([], Some e)
      | Inr (i', result') \<Rightarrow>
          (case COST_MAP action of
             None \<Rightarrow> ([], Some KeyError)
           | Some c \<Rightarrow>
               (let h' = h[r := result'];
                    tot' = tot + c;
                    rest = redaction_loop final r prescription tot' i' h'
                in ((\<lparr>step_action = action, step_i = i', step_total = tot', step_result = r\<rparr>, h')
                      # fst rest, snd rest))))"

definition get_redaction ::
  "string list \<Rightarrow> 'a list \<Rightarrow> 'a list \<Rightarrow> 'a heap \<Rightarrow> (step \<times> 'a heap) list \<times> error option" where
  "get_redaction prescription original final h =
     redaction_loop final (length h) prescription 0 0 (h @ [original])"

text \<open>
  What a consumer reads through the reference of step \<open>k\<close> at the moment it holds step
  \<open>l\<close> (the generator has been resumed \<open>l - k\<close> times since step \<open>k\<close> was yielded).
\<close>

definition read_at :: "(step \<times> 'a heap) list \<Rightarrow> nat \<Rightarrow> nat \<Rightarrow> 'a list" where
  "read_at steps k l = snd (steps ! l) ! step_result (fst (steps ! k))"

text \<open>
  The working sequence once the generator is exhausted: the list of the last step, or the
  copy of \<open>original\<close> when the prescription is empty and nothing was yielded.
\<close>

definition final_sequence :: "'a list \<Rightarrow> (step \<times> 'a heap) list \<Rightarrow> 'a list" where
  "final_sequence original steps =
     (if steps = [] then original else read_at steps (length steps - 1) (length steps - 1))"

text \<open>The running total once the generator is exhausted (0 before the first step).\<close>

definition final_total :: "(step \<times> 'a heap) list \<Rightarrow> int" where
  "final_total steps = (if steps = [] then 0 else step_total (fst (last steps)))"

section \<open>Reference notions used in the statements\<close>

text \<open>
  The weighted Levenshtein recurrence as the specification words it: borders
  \<open>j * insert_cost\<close> and \<open>i * delete_cost\<close>, interior the minimum of the three candidates.
  \<open>levenshtein A B i j\<close> is the least cost of turning the first \<open>i\<close> elements of \<open>A\<close> into
  the first \<open>j\<close> elements of \<open>B\<close>.
\<close>

fun levenshtein :: "'a list \<Rightarrow> 'a list \<Rightarrow> nat \<Rightarrow> nat \<Rightarrow> int" where
  "levenshtein A B 0 j = int j * 3"
| "levenshtein A B (Suc i) 0 = int (Suc i) * 2"
| "levenshtein A B (Suc i) (Suc j) =
     min (levenshtein A B (Suc i) j + 3)
       (min (levenshtein A B i (Suc j) + 2)
            (levenshtein A B i j + (if A ! i = B ! j then 0 else 4)))"

text \<open>
  The cells \<^verbatim>\<open>get_matrix\<close> computes, as a recurrence on the indices: the borders are the
  plain indices \<^verbatim>\<open>i\<close> and \<^verbatim>\<open>j\<close> of lines 41 and 45.
\<close>

fun cost_at :: "'a list \<Rightarrow> 'a list \<Rightarrow> nat \<Rightarrow> nat \<Rightarrow> int" where
  "cost_at A B 0 j = int j"
| "cost_at A B (Suc i) 0 = int (Suc i)"
| "cost_at A B (Suc i) (Suc j) =
     min (cost_at A B (Suc i) j + 3)
       (min (cost_at A B i (Suc j) + 2)
            (cost_at A B i j + (if A ! i = B ! j then 0 else 4)))"

fun action_at :: "'a list \<Rightarrow> 'a list \<Rightarrow> nat \<Rightarrow> nat \<Rightarrow> string" where
  "action_at A B 0 j = INSERT"
| "action_at A B (Suc i) 0 = DELETE"
| "action_at A B (Suc i) (Suc j) =
     (if cost_at A B (Suc i) (Suc j) = cost_at A B (Suc i) j + 3 then INSERT
      else if cost_at A B (Suc i) (Suc j) = cost_at A B i (Suc j) + 2 then DELETE
      else if A ! i = B ! j then MATCH else REPLACE)"

text \<open>
  \<open>filled A B i j s\<close>: the state \<open>s\<close> of the nested loop has the dimensions of the two
  matrices, and the borders, the rows above \<open>i\<close> and the cells of row \<open>i\<close> left of
  column \<open>j\<close> hold the values of the recurrence.
\<close>

definition dims :: "nat \<Rightarrow> nat \<Rightarrow> 'b list list \<Rightarrow> bool" where
  "dims m n M = (length M = Suc m \<and> (\<forall>i \<le> m. length (M ! i) = Suc n))"

definition filled ::
  "'a list \<Rightarrow> 'a list \<Rightarrow> nat \<Rightarrow> nat \<Rightarrow> int list list \<times> string list list \<Rightarrow> bool" where
  "filled A B i j s =
     (dims (length A) (length B) (fst s) \<and> dims (length A) (length B) (snd s) \<and>
      (\<forall>i' \<le> length A. \<forall>j' \<le> length B.
         (i' = 0 \<or> j' = 0 \<or> i' < i \<or> (i' = i \<and> j' < j)) \<longrightarrow>
           fst s ! i' ! j' = cost_at A B i' j' \<and> snd s ! i' ! j' = action_at A B i' j'))"

text \<open>
  \<open>aligns A B a b p\<close>: read from left to right, \<open>p\<close> is an edit script that takes the
  alignment from the cell \<open>(a, b)\<close> to the final cell \<open>(length A, length B)\<close>; a Match step
  stands on equal elements.
\<close>

inductive aligns :: "'a list \<Rightarrow> 'a list \<Rightarrow> nat \<Rightarrow> nat \<Rightarrow> string list \<Rightarrow> bool" for A B where
  fin: "aligns A B (length A) (length B) []"
| del: "a < length A \<Longrightarrow> b \<le> length B \<Longrightarrow> aligns A B (Suc a) b p \<Longrightarrow> aligns A B a b (DELETE # p)"
| ins: "a \<le> length A \<Longrightarrow> b < length B \<Longrightarrow> aligns A B a (Suc b) p \<Longrightarrow> aligns A B a b (INSERT # p)"
| mat: "a < length A \<Longrightarrow> b < length B \<Longrightarrow> A ! a = B ! b \<Longrightarrow> aligns A B (Suc a) (Suc b) p \<Longrightarrow>
     aligns A B a b (MATCH # p)"
| rep: "a < length A \<Longrightarrow> b < length B \<Longrightarrow> aligns A B (Suc a) (Suc b) p \<Longrightarrow>
     aligns A B a b (REPLACE # p)"

text \<open>
  The generator as a consumer sees it that copies the list of every step when it receives
  the step, as \<^verbatim>\<open>show_table\<close> does with \<^verbatim>\<open>result[:]\<close>: the same loop on the contents of
  the working list, without the heap. Lemma \<open>redaction_loop_replay\<close> relates the two.
\<close>

fun replay ::
  "'a list \<Rightarrow> string list \<Rightarrow> int \<Rightarrow> nat \<Rightarrow> 'a list \<Rightarrow> (string \<times> nat \<times> int \<times> 'a list) list \<times> error option" where
  "replay final [] tot i result = ([], None)"
| "replay final (action # prescription) tot i result =
     (case apply_action final action i result of
        Inl e \<Rightarrow> ([], Some e)
      | Inr (i', result') \<Rightarrow>
          (case COST_MAP action of
             None \<Rightarrow> ([], Some KeyError)
           | Some c \<Rightarrow>
               (let rest = replay final prescription (tot + c) i' result'
                in ((action, i', tot + c, result') # fst rest, snd rest))))"

text \<open>The sum of the per-operation costs of a prescription.\<close>

definition prescription_cost :: "string list \<Rightarrow> int" where
  "prescription_cost p = sum_list (map (\<lambda>action. the (COST_MAP action)) p)"

text \<open>The steps of a prescription that move the cursor, and those that consume an element of
  the original sequence.\<close>

definition moves :: "string list \<Rightarrow> nat" where
  "moves p = length (filter (\<lambda>action. action \<noteq> DELETE) p)"

definition consumed :: "string list \<Rightarrow> nat" where
  "consumed p = length (filter (\<lambda>action. action \<noteq> INSERT) p)"

text \<open>
  \<open>tracks A B a b p tot\<close>: replayed from the cursor \<open>b\<close>, the running total \<open>tot\<close> and the
  working list \<open>take b B @ drop a A\<close>, the prescription \<open>p\<close> raises nothing, yields one
  step per entry, and after each step the cursor has advanced by the moving steps so far
  and the working list is the part of \<open>B\<close> before the cursor followed by the part of \<open>A\<close>
  that is not consumed yet.
\<close>

definition tracks :: "'a list \<Rightarrow> 'a list \<Rightarrow> nat \<Rightarrow> nat \<Rightarrow> string list \<Rightarrow> int \<Rightarrow> bool" where
  "tracks A B a b p tot =
     (snd (replay B p tot b (take b B @ drop a A)) = None \<and>
      length (fst (replay B p tot b (take b B @ drop a A))) = length p \<and>
      (\<forall>k < length p. fst (replay B p tot b (take b B @ drop a A)) ! k =
         (p ! k, b + moves (take (Suc k) p), tot + prescription_cost (take (Suc k) p),
          take (b + moves (take (Suc k) p)) B @ drop (a + consumed (take (Suc k) p)) A)))"

section \<open>Tags, costs and cell assignment\<close>

lemma tags_distinct [simp]:
  "INSERT \<noteq> DELETE" "DELETE \<noteq> INSERT" "INSERT \<noteq> MATCH" "MATCH \<noteq> INSERT"
  "INSERT \<noteq> REPLACE" "REPLACE \<noteq> INSERT" "DELETE \<noteq> MATCH" "MATCH \<noteq> DELETE"
  "DELETE \<noteq> REPLACE" "REPLACE \<noteq> DELETE" "MATCH \<noteq> REPLACE" "REPLACE \<noteq> MATCH"
  by (simp_all add: INSERT_def DELETE_def MATCH_def REPLACE_def)

lemma COST_MAP_simps [simp]:
  "COST_MAP INSERT = Some 3" "COST_MAP DELETE = Some 2"
  "COST_MAP MATCH = Some 0" "COST_MAP REPLACE = Some 4"
  by (simp_all add: COST_MAP_def)

lemma length_set_cell [simp]: "length (set_cell M i j v) = length M"
  by (simp add: set_cell_def)

lemma length_nth_set_cell [simp]: "length (set_cell M i j v ! k) = length (M ! k)"
  by (cases "k = i"; cases "i < length M") (simp_all add: set_cell_def list_update_beyond)

lemma nth_set_cell:
  "i < length M \<Longrightarrow> j < length (M ! i) \<Longrightarrow>
     set_cell M i j v ! i' ! j' = (if i' = i \<and> j' = j then v else M ! i' ! j')"
  by (cases "i' = i") (auto simp: set_cell_def nth_list_update)

lemma nth_set_cell_same:
  "i < length M \<Longrightarrow> j < length (M ! i) \<Longrightarrow> set_cell M i j v ! i ! j = v"
  by (simp add: set_cell_def)

lemma nth_set_cell_other:
  "\<not> (i' = i \<and> j' = j) \<Longrightarrow> set_cell M i j v ! i' ! j' = M ! i' ! j'"
  by (cases "i' = i"; cases "i < length M")
    (auto simp: set_cell_def list_update_beyond)

lemma dims_set_cell: "dims m n M \<Longrightarrow> dims m n (set_cell M i j v)"
  by (simp add: dims_def)

lemma dims_replicate: "dims m n (replicate (Suc m) (replicate (Suc n) v))"
  by (simp add: dims_def del: replicate.simps)

lemma enumerate_eq_map:
  "enumerate n xs = map (\<lambda>i. (i, xs ! (i - n))) [n..<n + length xs]"
  by (rule nth_equalityI) (simp_all add: nth_enumerate_eq)

lemma fold_enumerate:
  "fold (\<lambda>(i, x). f i x) (enumerate n xs) s = fold (\<lambda>i. f i (xs ! (i - n))) [n..<n + length xs] s"
  by (simp add: enumerate_eq_map [of n xs] fold_map comp_def)

text \<open>The first border loop.\<close>

lemma column_loop:
  assumes f: "\<And>i s. f i s = (set_cell (fst s) i 0 (int i), set_cell (snd s) i 0 DELETE)"
    and d: "dims m n M" "dims m n Act"
  shows "k \<le> Suc m \<Longrightarrow>
         dims m n (fst (fold f [0..<k] (M, Act))) \<and> dims m n (snd (fold f [0..<k] (M, Act))) \<and>
         (\<forall>i < k. fst (fold f [0..<k] (M, Act)) ! i ! 0 = int i \<and>
                  snd (fold f [0..<k] (M, Act)) ! i ! 0 = DELETE)"
proof (induction k)
  case 0
  then show ?case using d by simp
next
  case (Suc k)
  define t where "t = fold f [0..<k] (M, Act)"
  from Suc have IH: "dims m n (fst t)" "dims m n (snd t)"
    "\<forall>i < k. fst t ! i ! 0 = int i \<and> snd t ! i ! 0 = DELETE" by (simp_all add: t_def)
  from Suc.prems IH(1,2) have len: "k < length (fst t)" "0 < length (fst t ! k)"
     "k < length (snd t)" "0 < length (snd t ! k)"
    by (simp_all add: dims_def)
  have "fold f [0..<Suc k] (M, Act) = (set_cell (fst t) k 0 (int k), set_cell (snd t) k 0 DELETE)"
    by (simp add: t_def f)
  then show ?case
    using IH len by (auto simp: dims_set_cell nth_set_cell less_Suc_eq)
qed

text \<open>The second border loop keeps the first column below row 0.\<close>

lemma row_loop:
  assumes f: "\<And>j s. f j s = (set_cell (fst s) 0 j (int j), set_cell (snd s) 0 j INSERT)"
    and d: "dims m n M" "dims m n Act"
  shows "k \<le> Suc n \<Longrightarrow>
         dims m n (fst (fold f [0..<k] (M, Act))) \<and> dims m n (snd (fold f [0..<k] (M, Act))) \<and>
         (\<forall>j < k. fst (fold f [0..<k] (M, Act)) ! 0 ! j = int j \<and>
                  snd (fold f [0..<k] (M, Act)) ! 0 ! j = INSERT) \<and>
         (\<forall>i. 0 < i \<longrightarrow> fst (fold f [0..<k] (M, Act)) ! i ! 0 = M ! i ! 0 \<and>
                  snd (fold f [0..<k] (M, Act)) ! i ! 0 = Act ! i ! 0)"
proof (induction k)
  case 0
  then show ?case using d by simp
next
  case (Suc k)
  define t where "t = fold f [0..<k] (M, Act)"
  from Suc have IH: "dims m n (fst t)" "dims m n (snd t)"
    "\<forall>j < k. fst t ! 0 ! j = int j \<and> snd t ! 0 ! j = INSERT"
    "\<forall>i. 0 < i \<longrightarrow> fst t ! i ! 0 = M ! i ! 0 \<and> snd t ! i ! 0 = Act ! i ! 0"
    by (simp_all add: t_def)
  from Suc.prems IH(1,2) have len: "0 < length (fst t)" "k < length (fst t ! 0)"
     "0 < length (snd t)" "k < length (snd t ! 0)"
    by (simp_all add: dims_def)
  have "fold f [0..<Suc k] (M, Act) = (set_cell (fst t) 0 k (int k), set_cell (snd t) 0 k INSERT)"
    by (simp add: t_def f)
  then show ?case
    using IH len by (auto simp: dims_set_cell nth_set_cell less_Suc_eq)
qed

text \<open>One interior cell.\<close>

lemma filledD:
  "filled A B i j s \<Longrightarrow> i' \<le> length A \<Longrightarrow> j' \<le> length B \<Longrightarrow>
     i' = 0 \<or> j' = 0 \<or> i' < i \<or> (i' = i \<and> j' < j) \<Longrightarrow>
     fst s ! i' ! j' = cost_at A B i' j' \<and> snd s ! i' ! j' = action_at A B i' j'"
  unfolding filled_def by blast

lemma fill_cell_eq:
  assumes "filled A B (Suc i) (Suc j) s" "i < length A" "j < length B"
  shows "fill_cell (Suc i) (A ! i) (Suc j) (B ! j) s =
           (set_cell (fst s) (Suc i) (Suc j) (cost_at A B (Suc i) (Suc j)),
            set_cell (snd s) (Suc i) (Suc j) (action_at A B (Suc i) (Suc j)))"
proof -
  from assms have c: "fst s ! Suc i ! j = cost_at A B (Suc i) j"
      "fst s ! i ! Suc j = cost_at A B i (Suc j)" "fst s ! i ! j = cost_at A B i j"
    using filledD [OF assms(1), of "Suc i" j] filledD [OF assms(1), of i "Suc j"]
      filledD [OF assms(1), of i j] by simp_all
  show ?thesis
    by (cases s) (use c in \<open>auto simp: fill_cell_def Let_def min_def\<close>)
qed

lemma fill_cell_filled:
  assumes "filled A B (Suc i) (Suc j) s" "i < length A" "j < length B"
  shows "filled A B (Suc i) (Suc (Suc j)) (fill_cell (Suc i) (A ! i) (Suc j) (B ! j) s)"
proof -
  from assms have d: "dims (length A) (length B) (fst s)" "dims (length A) (length B) (snd s)"
    by (simp_all add: filled_def)
  with assms(2,3) have len: "Suc i < length (fst s)" "Suc j < length (fst s ! Suc i)"
      "Suc i < length (snd s)" "Suc j < length (snd s ! Suc i)"
    by (simp_all add: dims_def)
  have "fst (set_cell (fst s) (Suc i) (Suc j) c, set_cell (snd s) (Suc i) (Suc j) a) ! i' ! j'
          = cost_at A B i' j' \<and>
        snd (set_cell (fst s) (Suc i) (Suc j) c, set_cell (snd s) (Suc i) (Suc j) a) ! i' ! j'
          = action_at A B i' j'"
    if "i' \<le> length A" "j' \<le> length B"
       "i' = 0 \<or> j' = 0 \<or> i' < Suc i \<or> (i' = Suc i \<and> j' < Suc (Suc j))"
       "c = cost_at A B (Suc i) (Suc j)" "a = action_at A B (Suc i) (Suc j)"
    for i' j' c a
  proof (cases "i' = Suc i \<and> j' = Suc j")
    case True
    then show ?thesis using len that(4,5) by (simp add: nth_set_cell_same)
  next
    case False
    with that(3) have "i' = 0 \<or> j' = 0 \<or> i' < Suc i \<or> (i' = Suc i \<and> j' < Suc j)"
      by auto
    from filledD [OF assms(1) that(1,2) this] show ?thesis
      by (simp add: nth_set_cell_other [OF False])
  qed
  then show ?thesis
    unfolding fill_cell_eq [OF assms] filled_def
    using d by (simp add: dims_set_cell)
qed

text \<open>The inner loop, the step to the next row, and the outer loop.\<close>

lemma inner_loop:
  assumes "i < length A"
  shows "k \<le> length B \<Longrightarrow> filled A B (Suc i) 1 s \<Longrightarrow>
     filled A B (Suc i) (Suc k)
       (fold (\<lambda>j. fill_cell (Suc i) (A ! i) j (B ! (j - 1))) [1..<Suc k] s)"
proof (induction k)
  case 0
  then show ?case by simp
next
  case (Suc k)
  define t where "t = fold (\<lambda>j. fill_cell (Suc i) (A ! i) j (B ! (j - 1))) [1..<Suc k] s"
  from Suc have "filled A B (Suc i) (Suc k) t" by (simp add: t_def)
  from fill_cell_filled [OF this assms] Suc.prems(1)
  have "filled A B (Suc i) (Suc (Suc k)) (fill_cell (Suc i) (A ! i) (Suc k) (B ! k) t)" by simp
  moreover have "fold (\<lambda>j. fill_cell (Suc i) (A ! i) j (B ! (j - 1))) [1..<Suc (Suc k)] s
      = fill_cell (Suc i) (A ! i) (Suc k) (B ! k) t"
    by (simp add: t_def)
  ultimately show ?case by simp
qed

lemma filledI:
  assumes "dims (length A) (length B) (fst s)" "dims (length A) (length B) (snd s)"
    and "\<And>i' j'. i' \<le> length A \<Longrightarrow> j' \<le> length B \<Longrightarrow>
           i' = 0 \<or> j' = 0 \<or> i' < i \<or> (i' = i \<and> j' < j) \<Longrightarrow>
           fst s ! i' ! j' = cost_at A B i' j' \<and> snd s ! i' ! j' = action_at A B i' j'"
  shows "filled A B i j s"
  unfolding filled_def using assms by blast

lemma filled_dims:
  "filled A B i j s \<Longrightarrow> dims (length A) (length B) (fst s) \<and> dims (length A) (length B) (snd s)"
  by (simp add: filled_def)

lemma filled_next_row:
  assumes "filled A B i (Suc (length B)) s"
  shows "filled A B (Suc i) 1 s"
proof (rule filledI)
  fix i' j'
  assume b: "i' \<le> length A" "j' \<le> length B"
    and "i' = 0 \<or> j' = 0 \<or> i' < Suc i \<or> (i' = Suc i \<and> j' < 1)"
  with b(2) have "i' = 0 \<or> j' = 0 \<or> i' < i \<or> (i' = i \<and> j' < Suc (length B))" by auto
  from filledD [OF assms b this]
  show "fst s ! i' ! j' = cost_at A B i' j' \<and> snd s ! i' ! j' = action_at A B i' j'" .
qed (use filled_dims [OF assms] in simp_all)

lemma row_fill:
  assumes "i < length A" "filled A B (Suc i) 1 s"
  shows "filled A B (Suc (Suc i)) 1
     (fold (\<lambda>(j, char_final). fill_cell (Suc i) (A ! i) j char_final) (enumerate 1 B) s)"
proof -
  have e: "fold (\<lambda>(j, char_final). fill_cell (Suc i) (A ! i) j char_final) (enumerate 1 B) s
      = fold (\<lambda>j. fill_cell (Suc i) (A ! i) j (B ! (j - 1))) [1..<Suc (length B)] s"
    using fold_enumerate [of "fill_cell (Suc i) (A ! i)" 1 B s] by (simp del: upt_Suc)
  show ?thesis
    unfolding e by (rule filled_next_row [OF inner_loop [OF assms(1) order_refl assms(2)]])
qed

lemma outer_loop:
  "k \<le> length A \<Longrightarrow> filled A B 1 1 s \<Longrightarrow>
     filled A B (Suc k) 1
       (fold (\<lambda>i. fold (\<lambda>(j, char_final). fill_cell i (A ! (i - 1)) j char_final) (enumerate 1 B))
          [1..<Suc k] s)"
proof (induction k)
  case 0
  then show ?case by simp
next
  case (Suc k)
  define t where "t = fold (\<lambda>i. fold (\<lambda>(j, char_final). fill_cell i (A ! (i - 1)) j char_final)
      (enumerate 1 B)) [1..<Suc k] s"
  from Suc have "filled A B (Suc k) 1 t" by (simp add: t_def)
  with Suc.prems(1) row_fill [of k A B t] show ?case by (simp add: t_def)
qed

lemma borders_filled:
  fixes A :: "'a list" and B :: "'a list"
  defines "s \<equiv> fold (\<lambda>j (matrix, action_matrix).
                 (set_cell matrix 0 j (int j), set_cell action_matrix 0 j INSERT))
               [0..<Suc (length B)]
               (fold (\<lambda>i (matrix, action_matrix).
                 (set_cell matrix i 0 (int i), set_cell action_matrix i 0 DELETE))
               [0..<Suc (length A)]
               (replicate (Suc (length A)) (replicate (Suc (length B)) (0::int)),
                replicate (Suc (length A)) (replicate (Suc (length B)) [])))"
  shows "filled A B 1 1 s"
proof -
  define c where "c = fold (\<lambda>i (matrix, action_matrix).
                 (set_cell matrix i 0 (int i), set_cell action_matrix i 0 DELETE))
               [0..<Suc (length A)]
               (replicate (Suc (length A)) (replicate (Suc (length B)) (0::int)),
                replicate (Suc (length A)) (replicate (Suc (length B)) ([]::string)))"
  have c: "dims (length A) (length B) (fst c)" "dims (length A) (length B) (snd c)"
      "\<forall>i < Suc (length A). fst c ! i ! 0 = int i \<and> snd c ! i ! 0 = DELETE"
    using column_loop [where k = "Suc (length A)" and m = "length A" and n = "length B",
        OF _ dims_replicate dims_replicate order_refl,
        of "\<lambda>i (matrix, action_matrix).
                 (set_cell matrix i 0 (int i), set_cell action_matrix i 0 DELETE)" 0 "[]"]
    unfolding c_def by (simp_all add: case_prod_beta)
  have s_eq: "s = fold (\<lambda>j (matrix, action_matrix).
                 (set_cell matrix 0 j (int j), set_cell action_matrix 0 j INSERT))
               [0..<Suc (length B)] (fst c, snd c)"
    unfolding s_def c_def by simp
  have r: "dims (length A) (length B) (fst s)" "dims (length A) (length B) (snd s)"
      "\<forall>j < Suc (length B). fst s ! 0 ! j = int j \<and> snd s ! 0 ! j = INSERT"
      "\<forall>i. 0 < i \<longrightarrow> fst s ! i ! 0 = fst c ! i ! 0 \<and> snd s ! i ! 0 = snd c ! i ! 0"
    using row_loop [where k = "Suc (length B)" and m = "length A" and n = "length B",
        OF _ c(1) c(2) order_refl,
        of "\<lambda>j (matrix, action_matrix).
                 (set_cell matrix 0 j (int j), set_cell action_matrix 0 j INSERT)"]
    unfolding s_eq by (simp_all add: case_prod_beta)
  have "fst s ! i' ! j' = cost_at A B i' j' \<and> snd s ! i' ! j' = action_at A B i' j'"
    if "i' \<le> length A" "j' \<le> length B" "i' = 0 \<or> j' = 0" for i' j'
  proof (cases i')
    case 0
    with r(3) that(2) show ?thesis by simp
  next
    case (Suc i0)
    with that(3) have "j' = 0" by simp
    with Suc r(4) c(3) that(1) show ?thesis by simp
  qed
  then show ?thesis
    unfolding filled_def using r(1,2) by auto
qed

lemma get_matrices_filled: "filled A B (Suc (length A)) 1 (get_matrices A B)"
proof -
  have "get_matrices A B =
     fold (\<lambda>i. fold (\<lambda>(j, char_final). fill_cell i (A ! (i - 1)) j char_final) (enumerate 1 B))
          [1..<Suc (length A)]
       (fold (\<lambda>j (matrix, action_matrix).
                 (set_cell matrix 0 j (int j), set_cell action_matrix 0 j INSERT))
               [0..<Suc (length B)]
               (fold (\<lambda>i (matrix, action_matrix).
                 (set_cell matrix i 0 (int i), set_cell action_matrix i 0 DELETE))
               [0..<Suc (length A)]
               (replicate (Suc (length A)) (replicate (Suc (length B)) (0::int)),
                replicate (Suc (length A)) (replicate (Suc (length B)) []))))"
    unfolding get_matrices_def Let_def
    using fold_enumerate [of "\<lambda>i char_origin.
        fold (\<lambda>(j, char_final). fill_cell i char_origin j char_final) (enumerate 1 B)" 1 A]
    by simp
  then show ?thesis
    using outer_loop [OF order_refl borders_filled, of A B] by simp
qed

lemma dims_get_matrices:
  "dims (length A) (length B) (fst (get_matrices A B))"
  "dims (length A) (length B) (get_matrix A B)"
  using get_matrices_filled [of A B] by (simp_all add: filled_def get_matrix_def)

lemma get_matrices_cell:
  assumes "i \<le> length A" "j \<le> length B"
  shows "fst (get_matrices A B) ! i ! j = cost_at A B i j"
    and "get_matrix A B ! i ! j = action_at A B i j"
proof -
  have "i = 0 \<or> j = 0 \<or> i < Suc (length A) \<or> (i = Suc (length A) \<and> j < 1)"
    using assms by simp
  from filledD [OF get_matrices_filled assms this]
  show "fst (get_matrices A B) ! i ! j = cost_at A B i j"
    and "get_matrix A B ! i ! j = action_at A B i j"
    by (simp_all add: get_matrix_def)
qed


section \<open>The walk on a matrix built by get\_matrix\<close>

lemma cost_at_nonneg: "0 \<le> cost_at A B i j"
  by (induction A B i j rule: cost_at.induct) simp_all

lemma py_get_nat: "k < length xs \<Longrightarrow> py_get xs (int k) = Inr (xs ! k)"
  by (simp add: py_get_def)

lemma action_at_cases:
  "action_at A B (Suc i) (Suc j) = INSERT \<or> action_at A B (Suc i) (Suc j) = DELETE \<or>
   (action_at A B (Suc i) (Suc j) = MATCH \<and> A ! i = B ! j) \<or>
   action_at A B (Suc i) (Suc j) = REPLACE"
  by simp

text \<open>One iteration of the walk on a matrix that \<open>get_matrix\<close> built.\<close>

lemma traceback_unfold:
  assumes "i \<le> length A" "j \<le> length B" "i \<noteq> 0 \<or> j \<noteq> 0"
  shows "traceback (get_matrix A B) (int i) (int j) acc =
     (if action_at A B i j = DELETE
        then traceback (get_matrix A B) (int i - 1) (int j) (acc @ [DELETE])
      else if action_at A B i j = INSERT
        then traceback (get_matrix A B) (int i) (int j - 1) (acc @ [INSERT])
      else traceback (get_matrix A B) (int i - 1) (int j - 1) (acc @ [action_at A B i j]))"
proof -
  from dims_get_matrices(2) [of A B] assms(1,2)
  have "i < length (get_matrix A B)" "j < length (get_matrix A B ! i)"
    by (simp_all add: dims_def)
  then have g: "py_get (get_matrix A B) (int i) = Inr (get_matrix A B ! i)"
      "py_get (get_matrix A B ! i) (int j) = Inr (action_at A B i j)"
    using get_matrices_cell(2) [OF assms(1,2)] by (simp_all add: py_get_nat)
  have k: "action_at A B i j = DELETE \<or> action_at A B i j = INSERT \<or>
      action_at A B i j = REPLACE \<or> action_at A B i j = MATCH"
    by (cases i; cases j) auto
  show ?thesis
    by (subst traceback.simps) (use assms(3) g k in auto)
qed

lemma traceback_aligns:
  "i \<le> length A \<Longrightarrow> j \<le> length B \<Longrightarrow> aligns A B i j (rev acc) \<Longrightarrow>
     \<exists>p. traceback (get_matrix A B) (int i) (int j) acc = Inr p \<and> aligns A B 0 0 (rev p)"
proof (induction "i + j" arbitrary: i j acc rule: less_induct)
  case less
  show ?case
  proof (cases i)
    case 0
    note i0 = 0
    show ?thesis
    proof (cases j)
      case 0
      with i0 less.prems(3) show ?thesis by (simp add: traceback.simps)
    next
      case (Suc j0)
      have "aligns A B 0 j0 (rev (acc @ [INSERT]))"
        using less.prems i0 Suc by (simp add: aligns.ins)
      from less.hyps [of 0 j0, OF _ _ _ this] less.prems(2) Suc i0
      have "\<exists>p. traceback (get_matrix A B) 0 (int j0) (acc @ [INSERT]) = Inr p \<and>
          aligns A B 0 0 (rev p)" by simp
      moreover have "traceback (get_matrix A B) (int i) (int j) acc
          = traceback (get_matrix A B) 0 (int j0) (acc @ [INSERT])"
        using traceback_unfold [OF less.prems(1,2), of acc] i0 Suc by simp
      ultimately show ?thesis by simp
    qed
  next
    case (Suc i0)
    note i0 = Suc
    show ?thesis
    proof (cases j)
      case 0
      have "aligns A B i0 0 (rev (acc @ [DELETE]))"
        using less.prems i0 0 by (simp add: aligns.del)
      from less.hyps [of i0 0, OF _ _ _ this] less.prems(1) 0 i0
      have "\<exists>p. traceback (get_matrix A B) (int i0) 0 (acc @ [DELETE]) = Inr p \<and>
          aligns A B 0 0 (rev p)" by simp
      moreover have "traceback (get_matrix A B) (int i) (int j) acc
          = traceback (get_matrix A B) (int i0) 0 (acc @ [DELETE])"
        using traceback_unfold [OF less.prems(1,2), of acc] i0 0 by simp
      ultimately show ?thesis by simp
    next
      case (Suc j0)
      from action_at_cases [of A B i0 j0]
      consider (I) "action_at A B i j = INSERT" | (D) "action_at A B i j = DELETE"
        | (M) "action_at A B i j = MATCH" "A ! i0 = B ! j0" | (R) "action_at A B i j = REPLACE"
        using i0 Suc by blast
      then show ?thesis
      proof cases
        case I
        have "aligns A B i j0 (rev (acc @ [INSERT]))"
          using less.prems i0 Suc by (simp add: aligns.ins)
        from less.hyps [of i j0, OF _ _ _ this] less.prems(1,2) Suc
        have "\<exists>p. traceback (get_matrix A B) (int i) (int j0) (acc @ [INSERT]) = Inr p \<and>
            aligns A B 0 0 (rev p)" by simp
        moreover have "traceback (get_matrix A B) (int i) (int j) acc
            = traceback (get_matrix A B) (int i) (int j0) (acc @ [INSERT])"
          using traceback_unfold [OF less.prems(1,2), of acc] I Suc by simp
        ultimately show ?thesis by simp
      next
        case D
        have "aligns A B i0 j (rev (acc @ [DELETE]))"
          using less.prems i0 Suc by (simp add: aligns.del)
        from less.hyps [of i0 j, OF _ _ _ this] less.prems(1,2) i0
        have "\<exists>p. traceback (get_matrix A B) (int i0) (int j) (acc @ [DELETE]) = Inr p \<and>
            aligns A B 0 0 (rev p)" by simp
        moreover have "traceback (get_matrix A B) (int i) (int j) acc
            = traceback (get_matrix A B) (int i0) (int j) (acc @ [DELETE])"
          using traceback_unfold [OF less.prems(1,2), of acc] D i0 by simp
        ultimately show ?thesis by simp
      next
        case M
        have "aligns A B i0 j0 (rev (acc @ [MATCH]))"
          using less.prems i0 Suc M(2) by (simp add: aligns.mat)
        from less.hyps [of i0 j0, OF _ _ _ this] less.prems(1,2) i0 Suc
        have "\<exists>p. traceback (get_matrix A B) (int i0) (int j0) (acc @ [MATCH]) = Inr p \<and>
            aligns A B 0 0 (rev p)" by simp
        moreover have "traceback (get_matrix A B) (int i) (int j) acc
            = traceback (get_matrix A B) (int i0) (int j0) (acc @ [MATCH])"
          using traceback_unfold [OF less.prems(1,2), of acc] M(1) i0 Suc by simp
        ultimately show ?thesis by simp
      next
        case R
        have "aligns A B i0 j0 (rev (acc @ [REPLACE]))"
          using less.prems i0 Suc by (simp add: aligns.rep)
        from less.hyps [of i0 j0, OF _ _ _ this] less.prems(1,2) i0 Suc
        have "\<exists>p. traceback (get_matrix A B) (int i0) (int j0) (acc @ [REPLACE]) = Inr p \<and>
            aligns A B 0 0 (rev p)" by simp
        moreover have "traceback (get_matrix A B) (int i) (int j) acc
            = traceback (get_matrix A B) (int i0) (int j0) (acc @ [REPLACE])"
          using traceback_unfold [OF less.prems(1,2), of acc] R i0 Suc by simp
        ultimately show ?thesis by simp
      qed
    qed
  qed
qed

lemma get_prescription_unfold:
  "get_prescription (get_matrix A B) =
     (case traceback (get_matrix A B) (int (length A)) (int (length B)) [] of
        Inl e \<Rightarrow> Inl e | Inr prescr \<Rightarrow> Inr (rev prescr))"
proof -
  from dims_get_matrices(2) [of A B]
  have "length (get_matrix A B) = Suc (length A)" "length (get_matrix A B ! 0) = Suc (length B)"
    by (simp_all add: dims_def)
  then show ?thesis
    using py_get_nat [of 0 "get_matrix A B"] by (simp add: get_prescription_def)
qed

lemma get_prescription_aligns:
  "\<exists>p. get_prescription (get_matrix A B) = Inr p \<and> aligns A B 0 0 p"
  using traceback_aligns [of "length A" A "length B" B "[]"]
  by (auto simp: get_prescription_unfold aligns.fin)


lemma py_get_Inl: "py_get xs i = Inl e \<Longrightarrow> e = IndexError"
  by (auto simp: py_get_def Let_def split: if_splits)

lemma py_get_mem: "py_get xs i = Inr x \<Longrightarrow> x \<in> set xs"
  by (auto simp: py_get_def Let_def split: if_splits)

lemma traceback_RuntimeError:
  "traceback am i j acc = Inl (RuntimeError a) \<Longrightarrow>
     a \<notin> {REPLACE, INSERT, DELETE, MATCH} \<and> (\<exists>row \<in> set am. a \<in> set row)"
proof (induction am i j acc rule: traceback.induct)
  case (1 am i j acc)
  show ?case
  proof (cases "i = 0 \<and> j = 0")
    case True
    then have "traceback am i j acc = Inr acc" by (subst traceback.simps) simp
    with "1.prems" show ?thesis by simp
  next
    case False
    show ?thesis
    proof (cases "py_get am i")
      case (Inl e)
      from False have "traceback am i j acc = Inl e"
        by (subst traceback.simps [of am i j acc]) (simp add: Inl False)
      with "1.prems" py_get_Inl [OF Inl] show ?thesis by simp
    next
      case (Inr row)
      note row = Inr
      show ?thesis
      proof (cases "py_get row j")
        case (Inl e)
        from False have "traceback am i j acc = Inl e"
          by (subst traceback.simps [of am i j acc]) (simp add: row Inl False)
        with "1.prems" py_get_Inl [OF Inl] show ?thesis by simp
      next
        case (Inr action)
        have mem: "row \<in> set am" "action \<in> set row"
          using py_get_mem [OF row] py_get_mem [OF Inr] by simp_all
        from False have u: "traceback am i j acc =
            (if action = DELETE then traceback am (i - 1) j (acc @ [action])
             else if action = INSERT then traceback am i (j - 1) (acc @ [action])
             else if action = REPLACE \<or> action = MATCH
               then traceback am (i - 1) (j - 1) (acc @ [action])
             else Inl (RuntimeError action))"
          by (subst traceback.simps [of am i j acc]) (simp add: row Inr False)
        consider (D) "action = DELETE" | (I) "action \<noteq> DELETE" "action = INSERT"
          | (RM) "action \<noteq> DELETE" "action \<noteq> INSERT" "action = REPLACE \<or> action = MATCH"
          | (U) "action \<notin> {REPLACE, INSERT, DELETE, MATCH}"
          by auto
        then show ?thesis
        proof cases
          case D
          with u "1.prems"
          have "traceback am (i - 1) j (acc @ [action]) = Inl (RuntimeError a)" by simp
          from "1.IH"(1) [OF False row Inr D this] show ?thesis .
        next
          case I
          with u "1.prems"
          have "traceback am i (j - 1) (acc @ [action]) = Inl (RuntimeError a)" by simp
          from "1.IH"(2) [OF False row Inr I this] show ?thesis .
        next
          case RM
          with u "1.prems"
          have "traceback am (i - 1) (j - 1) (acc @ [action]) = Inl (RuntimeError a)" by auto
          from "1.IH"(3) [OF False row Inr RM this] show ?thesis .
        next
          case U
          with u "1.prems" have "a = action" by simp
          with U mem show ?thesis by blast
        qed
      qed
    qed
  qed
qed


lemma aligns_length:
  "aligns A B a b p \<Longrightarrow>
     length p \<le> (length A - a) + (length B - b) \<and> max (length A - a) (length B - b) \<le> length p"
  by (induction rule: aligns.induct) auto

lemma aligns_tags: "aligns A B a b p \<Longrightarrow> set p \<subseteq> {REPLACE, INSERT, DELETE, MATCH}"
  by (induction rule: aligns.induct) simp_all

lemma traceback_row0:
  "j \<le> length B \<Longrightarrow> traceback (get_matrix A B) 0 (int j) acc = Inr (acc @ replicate j INSERT)"
proof (induction j arbitrary: acc)
  case 0
  then show ?case by (simp add: traceback.simps)
next
  case (Suc j)
  from traceback_unfold [of 0 A "Suc j" B acc] Suc.prems
  have "traceback (get_matrix A B) 0 (int (Suc j)) acc
      = traceback (get_matrix A B) 0 (int j) (acc @ [INSERT])" by simp
  with Suc.IH [of "acc @ [INSERT]"] Suc.prems show ?case
    by (simp add: replicate_app_Cons_same)
qed

lemma traceback_col0:
  "i \<le> length A \<Longrightarrow> traceback (get_matrix A B) (int i) 0 acc = Inr (acc @ replicate i DELETE)"
proof (induction i arbitrary: acc)
  case 0
  then show ?case by (simp add: traceback.simps)
next
  case (Suc i)
  from traceback_unfold [of "Suc i" A 0 B acc] Suc.prems
  have "traceback (get_matrix A B) (int (Suc i)) 0 acc
      = traceback (get_matrix A B) (int i) 0 (acc @ [DELETE])" by simp
  with Suc.IH [of "acc @ [DELETE]"] Suc.prems show ?case
    by (simp add: replicate_app_Cons_same)
qed

lemma cost_at_diag: "cost_at A A i i = 0"
proof (induction i)
  case 0
  then show ?case by simp
next
  case (Suc i)
  with cost_at_nonneg [of A A "Suc i" i] cost_at_nonneg [of A A i "Suc i"]
  show ?case by (simp add: min_def)
qed

lemma action_at_diag: "action_at A A (Suc i) (Suc i) = MATCH"
  using cost_at_nonneg [of A A "Suc i" i] cost_at_nonneg [of A A i "Suc i"]
    cost_at_diag [of A "Suc i"]
  by (simp del: cost_at.simps)

lemma traceback_diag:
  "i \<le> length A \<Longrightarrow>
     traceback (get_matrix A A) (int i) (int i) acc = Inr (acc @ replicate i MATCH)"
proof (induction i arbitrary: acc)
  case 0
  then show ?case by (simp add: traceback.simps)
next
  case (Suc i)
  from traceback_unfold [of "Suc i" A "Suc i" A acc] Suc.prems
  have "traceback (get_matrix A A) (int (Suc i)) (int (Suc i)) acc
      = traceback (get_matrix A A) (int i) (int i) (acc @ [MATCH])"
    by (simp add: action_at_diag del: action_at.simps)
  with Suc.IH [of "acc @ [MATCH]"] Suc.prems show ?case
    by (simp add: replicate_app_Cons_same)
qed


section \<open>Replaying a prescription\<close>

lemma moves_simps [simp]:
  "moves [] = 0" "moves (DELETE # p) = moves p" "moves (INSERT # p) = Suc (moves p)"
  "moves (MATCH # p) = Suc (moves p)" "moves (REPLACE # p) = Suc (moves p)"
  by (simp_all add: moves_def)

lemma consumed_simps [simp]:
  "consumed [] = 0" "consumed (DELETE # p) = Suc (consumed p)" "consumed (INSERT # p) = consumed p"
  "consumed (MATCH # p) = Suc (consumed p)" "consumed (REPLACE # p) = Suc (consumed p)"
  by (simp_all add: consumed_def)

lemma prescription_cost_simps [simp]:
  "prescription_cost [] = 0" "prescription_cost (DELETE # p) = 2 + prescription_cost p"
  "prescription_cost (INSERT # p) = 3 + prescription_cost p"
  "prescription_cost (MATCH # p) = prescription_cost p"
  "prescription_cost (REPLACE # p) = 4 + prescription_cost p"
  by (simp_all add: prescription_cost_def)

text \<open>Each of the four operations keeps the working list of the form
  \<open>take b B @ drop a A\<close>, with the cursor \<open>b\<close>.\<close>

lemma apply_action_DELETE:
  assumes "a < length A" "b \<le> length B"
  shows "apply_action B DELETE b (take b B @ drop a A) = Inr (b, take b B @ drop (Suc a) A)"
  using assms by (simp add: apply_action_def min_def)

lemma apply_action_INSERT:
  assumes "b < length B"
  shows "apply_action B INSERT b (take b B @ drop a A) = Inr (Suc b, take (Suc b) B @ drop a A)"
  using assms by (simp add: apply_action_def min_def take_Suc_conv_app_nth)

lemma apply_action_MATCH:
  assumes "a < length A" "b < length B" "A ! a = B ! b"
  shows "apply_action B MATCH b (take b B @ drop a A) = Inr (Suc b, take (Suc b) B @ drop (Suc a) A)"
  using assms Cons_nth_drop_Suc [of a A, symmetric]
  by (simp add: apply_action_def take_Suc_conv_app_nth)

lemma apply_action_REPLACE:
  assumes "a < length A" "b < length B"
  shows "apply_action B REPLACE b (take b B @ drop a A) = Inr (Suc b, take (Suc b) B @ drop (Suc a) A)"
  using assms Cons_nth_drop_Suc [of a A, symmetric]
  by (simp add: apply_action_def min_def take_Suc_conv_app_nth list_update_append)

lemma tracks_Cons:
  assumes ap: "apply_action B x b (take b B @ drop a A)
                 = Inr (b + db, take (b + db) B @ drop (a + da) A)"
    and c: "COST_MAP x = Some c"
    and mv: "\<And>q. moves (x # q) = db + moves q"
    and cs: "\<And>q. consumed (x # q) = da + consumed q"
    and pc: "\<And>q. prescription_cost (x # q) = c + prescription_cost q"
    and IH: "tracks A B (a + da) (b + db) p (tot + c)"
  shows "tracks A B a b (x # p) tot"
proof -
  define R where "R = replay B p (tot + c) (b + db) (take (b + db) B @ drop (a + da) A)"
  have e: "replay B (x # p) tot b (take b B @ drop a A)
      = ((x, b + db, tot + c, take (b + db) B @ drop (a + da) A) # fst R, snd R)"
    by (simp add: ap c R_def Let_def)
  from IH have R: "snd R = None" "length (fst R) = length p"
    "\<And>k. k < length p \<Longrightarrow> fst R ! k =
         (p ! k, (b + db) + moves (take (Suc k) p), (tot + c) + prescription_cost (take (Suc k) p),
          take ((b + db) + moves (take (Suc k) p)) B @ drop ((a + da) + consumed (take (Suc k) p)) A)"
    by (simp_all add: tracks_def R_def)
  have "fst (replay B (x # p) tot b (take b B @ drop a A)) ! k =
         ((x # p) ! k, b + moves (take (Suc k) (x # p)),
          tot + prescription_cost (take (Suc k) (x # p)),
          take (b + moves (take (Suc k) (x # p))) B @
            drop (a + consumed (take (Suc k) (x # p))) A)"
    if "k < length (x # p)" for k
  proof (cases k)
    case 0
    then show ?thesis
      unfolding e using mv [of "[]"] cs [of "[]"] pc [of "[]"] by simp
  next
    case (Suc k')
    with that have "k' < length p" by simp
    from R(3) [OF this] Suc show ?thesis
      unfolding e by (simp add: mv cs pc add.assoc)
  qed
  then show ?thesis
    unfolding tracks_def e using R(1,2) by simp
qed

lemma replay_aligns: "aligns A B a b p \<Longrightarrow> tracks A B a b p tot"
proof (induction arbitrary: tot rule: aligns.induct)
  case fin
  show ?case by (simp add: tracks_def)
next
  case (del a b p tot)
  show ?case
    by (rule tracks_Cons [where da = 1 and db = 0 and c = 2])
      (use del.IH [of "tot + 2"] apply_action_DELETE [OF del.hyps(1,2)] in simp_all)
next
  case (ins a b p tot)
  show ?case
    by (rule tracks_Cons [where da = 0 and db = 1 and c = 3])
      (use ins.IH [of "tot + 3"] apply_action_INSERT [OF ins.hyps(2)] in simp_all)
next
  case (mat a b p tot)
  show ?case
    by (rule tracks_Cons [where da = 1 and db = 1 and c = 0])
      (use mat.IH [of tot] apply_action_MATCH [OF mat.hyps(1,2,3)] in simp_all)
next
  case (rep a b p tot)
  show ?case
    by (rule tracks_Cons [where da = 1 and db = 1 and c = 4])
      (use rep.IH [of "tot + 4"] apply_action_REPLACE [OF rep.hyps(1,2)] in simp_all)
qed

text \<open>The generator on the heap yields the same values, each with the one address.\<close>

lemma redaction_loop_replay:
  "r < length h \<Longrightarrow>
     redaction_loop final r p tot i h =
       (map (\<lambda>(action, i', tot', result').
              (\<lparr>step_action = action, step_i = i', step_total = tot', step_result = r\<rparr>,
               h[r := result']))
          (fst (replay final p tot i (h ! r))),
        snd (replay final p tot i (h ! r)))"
proof (induction p arbitrary: tot i h)
  case Nil
  then show ?case by simp
next
  case (Cons x p)
  show ?case
  proof (cases "apply_action final x i (h ! r)")
    case (Inl e)
    then show ?thesis by simp
  next
    case (Inr v)
    obtain i' res' where v: "v = (i', res')" by (cases v)
    show ?thesis
    proof (cases "COST_MAP x")
      case None
      with Inr v show ?thesis by simp
    next
      case (Some c)
      from Cons.prems have "r < length (h[r := res'])" by simp
      from Cons.IH [OF this, of "tot + c" i'] Cons.prems Inr v Some
      show ?thesis by (simp add: Let_def)
    qed
  qed
qed

lemma get_redaction_replay:
  "get_redaction p original final h =
     (map (\<lambda>(action, i', tot', result').
            (\<lparr>step_action = action, step_i = i', step_total = tot', step_result = length h\<rparr>,
             h @ [result']))
        (fst (replay final p 0 0 original)),
      snd (replay final p 0 0 original))"
  using redaction_loop_replay [of "length h" "h @ [original]" final p 0 0]
  by (simp add: get_redaction_def)


lemma aligns_counts:
  "aligns A B a b p \<Longrightarrow> b + moves p = length B \<and> a + consumed p = length A"
  by (induction rule: aligns.induct) simp_all

lemma aligns_Nil: "aligns A B 0 0 [] \<Longrightarrow> A = [] \<and> B = []"
  by (erule aligns.cases) simp_all

lemma prescription_cost_MATCH: "prescription_cost (replicate n MATCH) = 0"
  by (induction n) simp_all

lemma get_redaction_aligns:
  assumes "aligns A B 0 0 p"
  shows "\<exists>steps. get_redaction p A B h = (steps, None) \<and> length steps = length p \<and>
     (\<forall>k < length p. steps ! k =
        (\<lparr>step_action = p ! k, step_i = moves (take (Suc k) p),
          step_total = prescription_cost (take (Suc k) p), step_result = length h\<rparr>,
         h @ [take (moves (take (Suc k) p)) B @ drop (consumed (take (Suc k) p)) A]))"
proof -
  from replay_aligns [OF assms, of 0]
  have t: "snd (replay B p 0 0 A) = None" "length (fst (replay B p 0 0 A)) = length p"
    "\<And>k. k < length p \<Longrightarrow> fst (replay B p 0 0 A) ! k =
         (p ! k, moves (take (Suc k) p), prescription_cost (take (Suc k) p),
          take (moves (take (Suc k) p)) B @ drop (consumed (take (Suc k) p)) A)"
    by (simp_all add: tracks_def)
  show ?thesis
    by (simp add: get_redaction_replay t)
qed

section \<open>The claims\<close>

text \<open>
  Claim C3. For all sequences \<open>A\<close> and \<open>B\<close>, \<^verbatim>\<open>get_prescription(get_matrix(A, B))\<close>
  returns a prescription, \<^verbatim>\<open>get_redaction\<close> replays it without an exception, one step per
  entry, and the working sequence after the last step is exactly \<open>B\<close>.
\<close>

theorem prescription_roundtrip:
  "\<exists>p steps. get_prescription (get_matrix A B) = Inr p \<and>
      get_redaction p A B h = (steps, None) \<and> length steps = length p \<and>
      final_sequence A steps = B"
proof -
  from get_prescription_aligns [of A B] obtain p
    where p: "get_prescription (get_matrix A B) = Inr p" "aligns A B 0 0 p" by blast
  from get_redaction_aligns [OF p(2), of h] obtain steps
    where s: "get_redaction p A B h = (steps, None)" "length steps = length p"
      "\<And>k. k < length p \<Longrightarrow> steps ! k =
        (\<lparr>step_action = p ! k, step_i = moves (take (Suc k) p),
          step_total = prescription_cost (take (Suc k) p), step_result = length h\<rparr>,
         h @ [take (moves (take (Suc k) p)) B @ drop (consumed (take (Suc k) p)) A])"
    by blast
  have "final_sequence A steps = B"
  proof (cases "p = []")
    case True
    with p(2) s(2) aligns_Nil [of A B] show ?thesis by (simp add: final_sequence_def)
  next
    case False
    then have k: "length p - 1 < length p" "Suc (length p - 1) = length p" by simp_all
    from False s(2) have ne: "steps \<noteq> []" by auto
    from s(3) [OF k(1)] aligns_counts [OF p(2)] s(2) ne show ?thesis
      by (simp add: final_sequence_def read_at_def k(2))
  qed
  with p(1) s(1,2) show ?thesis by blast
qed

text \<open>
  Claim C4. For every sequence \<open>A\<close>, the prescription of \<open>A\<close> against itself is
  \<open>length A\<close> Match operations and nothing else, and its replay ends with the running
  total 0.
\<close>

theorem identical_all_match:
  "get_prescription (get_matrix A A) = Inr (replicate (length A) MATCH) \<and>
   (\<exists>steps. get_redaction (replicate (length A) MATCH) A A h = (steps, None) \<and>
      length steps = length A \<and> final_total steps = 0)"
proof -
  have g: "get_prescription (get_matrix A A) = Inr (replicate (length A) MATCH)"
    using traceback_diag [of "length A" A "[]"] by (simp add: get_prescription_unfold)
  with get_prescription_aligns [of A A]
  have al: "aligns A A 0 0 (replicate (length A) MATCH)" by auto
  from get_redaction_aligns [OF al, of h] obtain steps
    where s: "get_redaction (replicate (length A) MATCH) A A h = (steps, None)"
      "length steps = length A"
      "\<And>k. k < length A \<Longrightarrow> step_total (fst (steps ! k)) =
         prescription_cost (take (Suc k) (replicate (length A) MATCH))"
    by auto
  have "final_total steps = 0"
  proof (cases "steps = []")
    case True
    then show ?thesis by (simp add: final_total_def)
  next
    case False
    with s(2) have "length A - 1 < length A" by (cases A) simp_all
    from s(3) [OF this] False s(2) show ?thesis
      by (simp add: final_total_def last_conv_nth prescription_cost_MATCH min_def)
  qed
  with g s(1,2) show ?thesis by blast
qed

text \<open>
  Claim C5. Against an empty original the prescription is one Insert per element of
  \<open>B\<close>; against an empty final it is one Delete per element of \<open>A\<close>; for two empty
  sequences it is empty.
\<close>

theorem empty_side_prescriptions:
  "get_prescription (get_matrix [] B) = Inr (replicate (length B) INSERT) \<and>
   get_prescription (get_matrix A []) = Inr (replicate (length A) DELETE) \<and>
   get_prescription (get_matrix [] []) = Inr []"
  by (simp add: get_prescription_unfold traceback_row0 traceback_col0 traceback.simps [of _ 0 0])

text \<open>
  Claim C6. In every interior cell \<open>(i, j)\<close> the cost is the minimum of the three
  candidates computed from the left, upper and diagonal neighbours, and the recorded action
  is Insert whenever the insert candidate attains the minimum, Delete when the delete
  candidate attains it and insert does not, and Replace or Match (by equality of the two
  elements) only when neither attains it.
\<close>

theorem tie_break_precedence:
  assumes "1 \<le> i" "i \<le> length original" "1 \<le> j" "j \<le> length final"
  shows "let matrix = fst (get_matrices original final);
             action_matrix = get_matrix original final;
             replace_action = (if original ! (i - 1) = final ! (j - 1) then MATCH else REPLACE);
             insert = matrix ! i ! (j - 1) + the (COST_MAP INSERT);
             delete = matrix ! (i - 1) ! j + the (COST_MAP DELETE);
             replace = matrix ! (i - 1) ! (j - 1) + the (COST_MAP replace_action);
             optimal = min insert (min delete replace)
         in matrix ! i ! j = optimal \<and>
            action_matrix ! i ! j =
              (if optimal = insert then INSERT
               else if optimal = delete then DELETE
               else replace_action)"
proof -
  from assms obtain i0 j0 where ij: "i = Suc i0" "j = Suc j0"
    by (cases i; cases j) auto
  with assms have b: "Suc i0 \<le> length original" "Suc j0 \<le> length final"
     "i0 \<le> length original" "j0 \<le> length final" by simp_all
  show ?thesis
    unfolding ij Let_def
    by (simp add: get_matrices_cell [OF b(1) b(2)] get_matrices_cell [OF b(1) b(4)]
        get_matrices_cell [OF b(3) b(2)] get_matrices_cell [OF b(3) b(4)])
qed

text \<open>
  The cell \<open>(2, 1)\<close> of \<^verbatim>\<open>get_matrix("aa", "b")\<close>: the three candidates are all 5, and the
  action is Insert.
\<close>

theorem tie_break_precedence_witness:
  "(1::nat) \<le> 2 \<and> 2 \<le> length ''aa'' \<and> (1::nat) \<le> 1 \<and> 1 \<le> length ''b'' \<and>
   fst (get_matrices ''aa'' ''b'') ! 2 ! 0 + 3 = 5 \<and>
   fst (get_matrices ''aa'' ''b'') ! 1 ! 1 + 2 = 5 \<and>
   fst (get_matrices ''aa'' ''b'') ! 1 ! 0 + 4 = 5 \<and>
   fst (get_matrices ''aa'' ''b'') ! 2 ! 1 = 5 \<and>
   get_matrix ''aa'' ''b'' ! 2 ! 1 = INSERT"
proof -
  have c: "fst (get_matrices ''aa'' ''b'') ! 2 ! 0 = 2"
    "fst (get_matrices ''aa'' ''b'') ! 1 ! 1 = 3"
    "fst (get_matrices ''aa'' ''b'') ! 1 ! 0 = 1"
    by code_simp+
  have n: "''aa'' ! (2 - 1) \<noteq> ''b'' ! (1 - 1)" by simp
  from tie_break_precedence [of 2 "''aa''" 1 "''b''"] c n show ?thesis
    by (simp add: Let_def)
qed

text \<open>
  Claim C7. On the action matrix of any two sequences the walk of \<^verbatim>\<open>get_prescription\<close>
  ends and returns a prescription made of the four known tags (the function \<open>traceback\<close> is
  total, and the result is not an exception); on any action matrix at all, the
  \<^verbatim>\<open>RuntimeError\<close> carries a tag that is none of the four and that stands in a cell of the
  matrix.
\<close>

theorem traceback_no_unknown_action:
  "(\<exists>p. get_prescription (get_matrix A B) = Inr p \<and> set p \<subseteq> {REPLACE, INSERT, DELETE, MATCH}) \<and>
   (get_prescription action_matrix = Inl (RuntimeError a) \<longrightarrow>
      a \<notin> {REPLACE, INSERT, DELETE, MATCH} \<and> (\<exists>row \<in> set action_matrix. a \<in> set row))"
proof
  from get_prescription_aligns [of A B] obtain p
    where p: "get_prescription (get_matrix A B) = Inr p" "aligns A B 0 0 p" by blast
  from aligns_tags [OF p(2)] p(1)
  show "\<exists>p. get_prescription (get_matrix A B) = Inr p \<and> set p \<subseteq> {REPLACE, INSERT, DELETE, MATCH}"
    by blast
next
  show "get_prescription action_matrix = Inl (RuntimeError a) \<longrightarrow>
      a \<notin> {REPLACE, INSERT, DELETE, MATCH} \<and> (\<exists>row \<in> set action_matrix. a \<in> set row)"
    by (auto simp: get_prescription_def split: sum.splits
        dest: traceback_RuntimeError py_get_Inl)
qed

text \<open>
  The prescription of \<^verbatim>\<open>"a"\<close> and \<^verbatim>\<open>"b"\<close> is returned, and a matrix whose cells hold the
  tag \<^verbatim>\<open>X\<close> raises the \<^verbatim>\<open>RuntimeError\<close> with that tag.
\<close>

theorem traceback_no_unknown_action_witness:
  "(\<exists>p. get_prescription (get_matrix ''a'' ''b'') = Inr p \<and>
        set p \<subseteq> {REPLACE, INSERT, DELETE, MATCH}) \<and>
   get_prescription [[''X'', ''X'']] = Inl (RuntimeError ''X'') \<and>
   ''X'' \<notin> {REPLACE, INSERT, DELETE, MATCH} \<and>
   (\<exists>row \<in> set [[''X'', ''X'']]. ''X'' \<in> set row)"
proof -
  have h: "get_prescription [[''X'', ''X'']] = Inl (RuntimeError ''X'')" by code_simp
  from traceback_no_unknown_action [of "''a''" "''b''" "[[''X'', ''X'']]" "''X''"] h
  show ?thesis by blast
qed

text \<open>
  Claim C8 as the specification states it (each step carries an independent copy, so an
  earlier snapshot still shows the sequence as it was) fails: for \<^verbatim>\<open>"ab"\<close> and the empty
  string the prescription is two Deletes; the list of the first step is \<^verbatim>\<open>['b']\<close> when the
  step is yielded, and it is \<^verbatim>\<open>[]\<close> when it is read after the second step.
\<close>

theorem snapshot_aliased_counterexample:
  "get_prescription (get_matrix ''ab'' '''') = Inr [DELETE, DELETE] \<and>
   read_at (fst (get_redaction [DELETE, DELETE] ''ab'' '''' [])) 0 0 = ''b'' \<and>
   read_at (fst (get_redaction [DELETE, DELETE] ''ab'' '''' [])) 0 1 = '''' \<and>
   read_at (fst (get_redaction [DELETE, DELETE] ''ab'' '''' [])) 0 1
     \<noteq> read_at (fst (get_redaction [DELETE, DELETE] ''ab'' '''' [])) 0 0"
  by code_simp

text \<open>
  Claim C8, as amended. Every step that \<^verbatim>\<open>get_redaction\<close> yields carries the address of
  the one working list that \<^verbatim>\<open>list(original)\<close> allocated, not a copy: read when a later
  step \<open>l\<close> has been yielded, the list of an earlier step \<open>k\<close> is the list of step \<open>l\<close>.
  The objects that were on the heap before are left as they were.
\<close>

theorem shared_working_list:
  "k \<le> l \<and> l < length (fst (get_redaction p original final h)) \<longrightarrow>
     step_result (fst (fst (get_redaction p original final h) ! k)) = length h \<and>
     step_result (fst (fst (get_redaction p original final h) ! l)) = length h \<and>
     read_at (fst (get_redaction p original final h)) k l
       = read_at (fst (get_redaction p original final h)) l l \<and>
     take (length h) (snd (fst (get_redaction p original final h) ! l)) = h"
  by (auto simp: get_redaction_replay read_at_def case_prod_beta)

text \<open>
  Two Deletes replayed on \<^verbatim>\<open>"ab"\<close>, on a heap that already holds one list: both steps
  carry the address 1, the first step read after the second shows the second, and the list
  at address 0 is untouched.
\<close>

theorem shared_working_list_witness:
  "(0::nat) \<le> 1 \<and> 1 < length (fst (get_redaction [DELETE, DELETE] ''ab'' '''' [''xyz''])) \<and>
   step_result (fst (fst (get_redaction [DELETE, DELETE] ''ab'' '''' [''xyz'']) ! 0)) = 1 \<and>
   step_result (fst (fst (get_redaction [DELETE, DELETE] ''ab'' '''' [''xyz'']) ! 1)) = 1 \<and>
   read_at (fst (get_redaction [DELETE, DELETE] ''ab'' '''' [''xyz''])) 0 1
     = read_at (fst (get_redaction [DELETE, DELETE] ''ab'' '''' [''xyz''])) 1 1 \<and>
   take 1 (snd (fst (get_redaction [DELETE, DELETE] ''ab'' '''' [''xyz'']) ! 1)) = [''xyz'']"
proof -
  have l: "length (fst (get_redaction [DELETE, DELETE] ''ab'' '''' [''xyz''])) = 2"
    by code_simp
  from shared_working_list [of 0 1 "[DELETE, DELETE]" "''ab''" "''''" "[''xyz'']"] l
  show ?thesis by simp
qed

text \<open>
  Claim C9. The prescription of \<open>A\<close> and \<open>B\<close> has at most \<open>length A + length B\<close> entries
  and at least \<open>max (length A) (length B)\<close>.
\<close>

theorem prescription_length_bounds:
  "\<exists>p. get_prescription (get_matrix A B) = Inr p \<and>
       length p \<le> length A + length B \<and> max (length A) (length B) \<le> length p"
proof -
  from get_prescription_aligns [of A B] obtain p
    where p: "get_prescription (get_matrix A B) = Inr p" "aligns A B 0 0 p" by blast
  from aligns_length [OF p(2)] p(1) show ?thesis by simp
qed

text \<open>
  Claim C10. While the prescription of \<open>A\<close> and \<open>B\<close> is replayed, after each step the
  cursor is the number of steps so far that are not Delete, and the working sequence is the
  first \<open>i\<close> elements of \<open>B\<close> followed by \<open>A\<close> without the elements consumed so far (one
  per step that is not Insert).
\<close>

theorem replay_cursor_invariant:
  "\<exists>p steps. get_prescription (get_matrix A B) = Inr p \<and>
      get_redaction p A B h = (steps, None) \<and> length steps = length p \<and>
      (\<forall>k < length steps.
         step_i (fst (steps ! k)) = moves (take (Suc k) p) \<and>
         read_at steps k k =
           take (step_i (fst (steps ! k))) B @ drop (consumed (take (Suc k) p)) A)"
proof -
  from get_prescription_aligns [of A B] obtain p
    where p: "get_prescription (get_matrix A B) = Inr p" "aligns A B 0 0 p" by blast
  from get_redaction_aligns [OF p(2), of h] obtain steps
    where s: "get_redaction p A B h = (steps, None)" "length steps = length p"
      "\<forall>k < length p. steps ! k =
        (\<lparr>step_action = p ! k, step_i = moves (take (Suc k) p),
          step_total = prescription_cost (take (Suc k) p), step_result = length h\<rparr>,
         h @ [take (moves (take (Suc k) p)) B @ drop (consumed (take (Suc k) p)) A])"
    by blast
  from s(2,3) have "\<forall>k < length steps.
         step_i (fst (steps ! k)) = moves (take (Suc k) p) \<and>
         read_at steps k k =
           take (step_i (fst (steps ! k))) B @ drop (consumed (take (Suc k) p)) A"
    by (simp add: read_at_def)
  with p(1) s(1,2) show ?thesis by blast
qed

text \<open>
  The replay of \<^verbatim>\<open>"ab"\<close> into \<^verbatim>\<open>"b"\<close>: after the Delete the cursor is 0, after the Match
  it is 1, and the working sequence is \<^verbatim>\<open>"b"\<close> both times.
\<close>

theorem replay_cursor_invariant_witness:
  "get_prescription (get_matrix ''ab'' ''b'') = Inr [DELETE, MATCH] \<and>
   (\<exists>steps. get_redaction [DELETE, MATCH] ''ab'' ''b'' [] = (steps, None) \<and> length steps = 2 \<and>
      step_i (fst (steps ! 0)) = 0 \<and> read_at steps 0 0 = ''b'' \<and>
      step_i (fst (steps ! 1)) = 1 \<and> read_at steps 1 1 = ''b'')"
proof -
  have g: "get_prescription (get_matrix ''ab'' ''b'') = Inr [DELETE, MATCH]" by code_simp
  from replay_cursor_invariant [of "''ab''" "''b''" "[]"] g obtain steps where
    s: "get_redaction [DELETE, MATCH] ''ab'' ''b'' [] = (steps, None)" "length steps = 2"
       "\<forall>k < length steps.
         step_i (fst (steps ! k)) = moves (take (Suc k) [DELETE, MATCH]) \<and>
         read_at steps k k =
           take (step_i (fst (steps ! k))) ''b'' @ drop (consumed (take (Suc k) [DELETE, MATCH])) ''ab''"
    by auto
  from s(3) s(2) have "step_i (fst (steps ! 0)) = 0 \<and> read_at steps 0 0 = ''b'' \<and>
      step_i (fst (steps ! 1)) = 1 \<and> read_at steps 1 1 = ''b''"
    by simp
  with g s(1,2) show ?thesis by blast
qed

text \<open>
  Claim C1 (the replayed cost of the prescription is the minimum over all edit
  prescriptions, the value of the weighted Levenshtein recurrence) fails on the code for
  \<^verbatim>\<open>"a"\<close> and \<^verbatim>\<open>"b"\<close>: the prescription is Insert, Delete with the replayed total 5,
  while the single Replace also turns \<^verbatim>\<open>"a"\<close> into \<^verbatim>\<open>"b"\<close> at the total 4, which is the
  value of the recurrence. The matrix cell itself holds 3, because the borders are filled
  with the plain indices.
\<close>

theorem prescription_not_minimal:
  "get_prescription (get_matrix ''a'' ''b'') = Inr [INSERT, DELETE] \<and>
   final_sequence ''a'' (fst (get_redaction [INSERT, DELETE] ''a'' ''b'' [])) = ''b'' \<and>
   final_total (fst (get_redaction [INSERT, DELETE] ''a'' ''b'' [])) = 5 \<and>
   get_redaction [REPLACE] ''a'' ''b'' []
     = ([(\<lparr>step_action = REPLACE, step_i = 1, step_total = 4, step_result = 0\<rparr>, [''b''])], None) \<and>
   levenshtein ''a'' ''b'' 1 1 = 4 \<and>
   fst (get_matrices ''a'' ''b'') ! 1 ! 1 = 3"
  by code_simp

text \<open>
  Claim C2 (border cells hold \<open>j * insert_cost\<close> and \<open>i * delete_cost\<close>) fails on the code:
  the cell \<open>(0, 1)\<close> holds 1, not 3, and the cell \<open>(1, 0)\<close> holds 1, not 2. The border
  actions are Insert on row 0 and Delete on column 0 below the corner; the corner
  \<open>(0, 0)\<close> is Insert, since the second loop overwrites it.
\<close>

theorem border_cost_unweighted:
  "fst (get_matrices '''' ''a'') ! 0 ! 1 = 1 \<and>
   fst (get_matrices ''a'' '''') ! 1 ! 0 = 1 \<and>
   the (COST_MAP INSERT) = 3 \<and> the (COST_MAP DELETE) = 2 \<and>
   get_matrix '''' ''a'' ! 0 ! 1 = INSERT \<and> get_matrix ''a'' '''' ! 1 ! 0 = DELETE \<and>
   get_matrix ''a'' '''' ! 0 ! 0 = INSERT"
  by code_simp

end
